theory Spec2Isabelle
  imports Complex_Main
begin

section \<open>The control-run dataset\<close>

text \<open>
  The notebook opens the CESM control run as \<^verbatim>\<open>atm_control\<close>. The cells on the global
  average read its latitude coordinate \<^verbatim>\<open>lat\<close> (degrees), the weights \<^verbatim>\<open>gw\<close> that the
  model output supplies (one per latitude) and the field \<^verbatim>\<open>FLNT\<close>, whose axes are
  (time, lat, lon). A one-dimensional array is a list, the field a list of time slices,
  each a list of latitude rows, each a list of values along longitude.

  A float64 number is the real number it stands for. A result that is not a finite number
  (NumPy gives NaN for the mean over an empty axis, and NaN or an infinity for a division
  by zero, warning but not raising) is \<open>None\<close>. Fields hold numbers only: missing
  values, which the mean of xarray skips, are outside the model.

  The cells are written down at three levels of arithmetic. With every operation exact
  (\<open>coslat\<close>, \<open>weight_factor\<close>, \<open>global_average\<close>) they are the formula the cells
  stand for. With every operation rounded to float64 (\<open>coslat_f64\<close>,
  \<open>weight_factor_f64\<close>, \<open>global_average_f64\<close>) they are what the cells compute. In
  between (\<open>weight_factor_c64\<close>, \<open>global_average_c64\<close>) the cosines are the float64
  numbers the cells compute, and the sums, products and quotients taken of them are exact.
\<close>

record dataset =
  lat :: "real list"
  lon :: "real list"
  gw :: "real list"
  FLNT :: "real list list list"

text \<open>
  The axes of a dataset agree: one weight per latitude, one row per latitude in every
  time slice, one value per longitude in every row.
\<close>

definition wf_dataset :: "dataset \<Rightarrow> bool" where
  "wf_dataset ds \<longleftrightarrow>
     length (gw ds) = length (lat ds) \<and>
     (\<forall>slice \<in> set (FLNT ds).
        length slice = length (lat ds) \<and>
        (\<forall>row \<in> set slice. length row = length (lon ds)))"

section \<open>The array operations the cells call\<close>

text \<open>\<^verbatim>\<open>deg2rad\<close>: degrees to radians, \<^verbatim>\<open>x * (pi / 180)\<close>.\<close>

definition deg2rad :: "real \<Rightarrow> real" where
  "deg2rad x = x * (pi / 180)"

text \<open>
  \<^verbatim>\<open>.mean(dim='lat')\<close> of an array whose only axis is \<^verbatim>\<open>lat\<close>: the sum over the number
  of entries; NaN on an empty axis.
\<close>

definition mean :: "real list \<Rightarrow> real option" where
  "mean xs = (if xs = [] then None else Some (sum_list xs / real (length xs)))"

text \<open>
  \<^verbatim>\<open>a / m\<close> for an array \<^verbatim>\<open>a\<close> along \<^verbatim>\<open>lat\<close> and a zero-dimensional \<^verbatim>\<open>m\<close>: every entry
  is divided by \<^verbatim>\<open>m\<close>. With \<^verbatim>\<open>m\<close> zero or NaN every entry of the quotient is NaN or
  infinite.
\<close>

definition div_by :: "real list \<Rightarrow> real option \<Rightarrow> real list option" where
  "div_by xs m =
     (case m of
        None \<Rightarrow> None
      | Some d \<Rightarrow> if d = 0 then None else Some (map (\<lambda>x. x / d) xs))"

text \<open>
  \<^verbatim>\<open>F * w\<close> for a field \<^verbatim>\<open>F\<close> on (time, lat, lon) and \<^verbatim>\<open>w\<close> along \<^verbatim>\<open>lat\<close>: the arrays
  are matched on the axis they share, so row \<open>i\<close> of every time slice is scaled by
  \<open>w ! i\<close>. Both operands carry the latitude coordinate of the same dataset, so the
  rows and the weights pair off one to one.
\<close>

definition mul_lat :: "real list list list \<Rightarrow> real list \<Rightarrow> real list list list" where
  "mul_lat F w = map (\<lambda>slice. map2 (\<lambda>row wi. map (\<lambda>x. x * wi) row) slice w) F"

text \<open>
  \<^verbatim>\<open>.mean(dim=('time', 'lon', 'lat'))\<close>: the mean over all three axes at once, the sum of
  every entry over the number of entries.
\<close>

definition mean_time_lon_lat :: "real list list list \<Rightarrow> real option" where
  "mean_time_lon_lat F = mean (concat (concat F))"

section \<open>The weighting cells\<close>

text \<open>
  \<^verbatim>\<open>coslat = cos(deg2rad(atm_control.lat))\<close>
\<close>

definition coslat :: "real list \<Rightarrow> real list" where
  "coslat lats = map (\<lambda>x. cos (deg2rad x)) lats"

text \<open>
  \<^verbatim>\<open>weight_factor = coslat / coslat.mean(dim='lat')\<close>
\<close>

definition weight_factor :: "real list \<Rightarrow> real list option" where
  "weight_factor lats = div_by (coslat lats) (mean (coslat lats))"

text \<open>
  \<^verbatim>\<open>weight_factor2 = atm_control.gw / atm_control.gw.mean(dim='lat')\<close>
\<close>

definition weight_factor2 :: "real list \<Rightarrow> real list option" where
  "weight_factor2 gws = div_by gws (mean gws)"

text \<open>
  \<^verbatim>\<open>(atm_control.FLNT * w).mean(dim=('time', 'lon', 'lat'))\<close> for a weight \<^verbatim>\<open>w\<close>. A weight
  whose entries are not finite makes every product, and so the mean, not finite.
\<close>

definition weighted_mean :: "real list list list \<Rightarrow> real list option \<Rightarrow> real option" where
  "weighted_mean F w =
     (case w of None \<Rightarrow> None | Some ws \<Rightarrow> mean_time_lon_lat (mul_lat F ws))"

text \<open>The two numbers the comparison cell prints.\<close>

definition global_average :: "dataset \<Rightarrow> real option" where
  "global_average ds = weighted_mean (FLNT ds) (weight_factor (lat ds))"

definition global_average2 :: "dataset \<Rightarrow> real option" where
  "global_average2 ds = weighted_mean (FLNT ds) (weight_factor2 (gw ds))"

section \<open>The notebook's variables\<close>

text \<open>
  The cells run top to bottom on one namespace. Each cell binds the variables on the
  left of its assignments and leaves every other variable as it was; the comparison
  cell prints two lines. The variables \<^verbatim>\<open>coslat\<close>, \<^verbatim>\<open>weight_factor\<close> and
  \<^verbatim>\<open>weight_factor2\<close> are the fields with the suffix \<open>_var\<close>, the plain names being
  the functions above.
\<close>

record namespace =
  atm_control :: dataset
  coslat_var :: "real list"
  weight_factor_var :: "real list option"
  weight_factor2_var :: "real list option"
  printed :: "real option list"

definition cell_weight_factor :: "namespace \<Rightarrow> namespace" where
  "cell_weight_factor ns =
     (let ns1 = ns\<lparr>coslat_var := map (\<lambda>x. cos (deg2rad x)) (lat (atm_control ns))\<rparr>
      in ns1\<lparr>weight_factor_var := div_by (coslat_var ns1) (mean (coslat_var ns1))\<rparr>)"

definition cell_weight_factor2 :: "namespace \<Rightarrow> namespace" where
  "cell_weight_factor2 ns =
     ns\<lparr>weight_factor2_var := div_by (gw (atm_control ns)) (mean (gw (atm_control ns)))\<rparr>"

definition cell_compare :: "namespace \<Rightarrow> namespace" where
  "cell_compare ns =
     (let ns1 = ns\<lparr>printed := printed ns @
                   [weighted_mean (FLNT (atm_control ns)) (weight_factor_var ns)]\<rparr>
      in ns1\<lparr>printed := printed ns1 @
                   [weighted_mean (FLNT (atm_control ns1)) (weight_factor2_var ns1)]\<rparr>)"

definition run_cells :: "namespace \<Rightarrow> namespace" where
  "run_cells ns = cell_compare (cell_weight_factor2 (cell_weight_factor ns))"

section \<open>The cells in float64 arithmetic\<close>

text \<open>The integer nearest to a real number, the even one of the two when it lies half way.\<close>

definition round_even :: "real \<Rightarrow> int" where
  "round_even r =
     (let f = \<lfloor>r\<rfloor> in
      if r - of_int f < 1 / 2 then f
      else if 1 / 2 < r - of_int f then f + 1
      else if even f then f else f + 1)"

text \<open>
  The float64 number nearest to \<open>x\<close>, ties to the even significand. With \<open>e\<close> the
  binary exponent of \<open>x\<close>, but not less than \<open>-1022\<close> (below that the numbers are
  subnormal and evenly spaced), the float64 numbers around \<open>x\<close> are the multiples of
  \<open>2 powr (e - 52)\<close>. The range is not bounded above: a result beyond the largest
  float64 number, which float64 turns into an infinity, is outside the model, and no
  number handled below comes near it.
\<close>

definition rnd64 :: "real \<Rightarrow> real" where
  "rnd64 x =
     (if x = 0 then 0
      else let e = max \<lfloor>log 2 \<bar>x\<bar>\<rfloor> (- 1022); q = 2 powr (of_int e - 52)
           in sgn x * (q * of_int (round_even (\<bar>x\<bar> / q))))"

text \<open>
  \<^verbatim>\<open>deg2rad\<close> multiplies by the float64 number nearest to \<open>pi / 180\<close>, which is
  \<open>5030569068109113 / 2 ^ 58\<close> (0.017453292519943295), and rounds the product.
\<close>

definition RAD :: real where
  "RAD = 5030569068109113 / 2 ^ 58"

definition deg2rad64 :: "real \<Rightarrow> real" where
  "deg2rad64 x = rnd64 (x * RAD)"

text \<open>
  \<^verbatim>\<open>cos\<close>: the cosine, rounded to float64; the C library behind NumPy is taken to round
  correctly. At the arguments evaluated below, the float64 radians of 0, 60, 90 and 180
  degrees, the value is 1, 0.5000000000000001, a number between 5.6e-17 and 6.6e-17
  (NumPy prints 6.123233995736766e-17) and \<open>-1\<close>.
\<close>

definition cos64 :: "real \<Rightarrow> real" where
  "cos64 y = rnd64 (cos y)"

text \<open>
  The float64 radians of 90 degrees, 1.5707963267948966. It lies below \<open>pi / 2\<close>, by
  more than 5.7e-17 and less than 6.5e-17.
\<close>

definition half_pi64 :: real where
  "half_pi64 = 7074237752028440 / 2 ^ 52"

text \<open>
  \<^verbatim>\<open>coslat = cos(deg2rad(atm_control.lat))\<close>
\<close>

definition coslat_f64 :: "real list \<Rightarrow> real list" where
  "coslat_f64 lats = map (\<lambda>x. cos64 (deg2rad64 x)) lats"

text \<open>
  The sum of the entries of an array in float64: the entries are added one after the
  other, every partial sum rounded. This is the order of NumPy on fewer than eight
  entries; on more it adds in blocks. The grids evaluated below have two rows, where
  there is one order only. What is proved of longer arrays, that a sum of numbers which
  are all at least \<open>2 powr (- 60)\<close> is at least that, holds in any order of addition.
\<close>

fun sum_f64 :: "real list \<Rightarrow> real" where
  "sum_f64 [] = 0"
| "sum_f64 (x # xs) = foldl (\<lambda>s y. rnd64 (s + y)) x xs"

text \<open>
  \<^verbatim>\<open>.mean(...)\<close> in float64: the float64 sum over the number of entries, rounded; NaN
  on an empty axis.
\<close>

definition mean_f64 :: "real list \<Rightarrow> real option" where
  "mean_f64 xs = (if xs = [] then None else Some (rnd64 (sum_f64 xs / real (length xs))))"

text \<open>\<^verbatim>\<open>a / m\<close> in float64: every quotient is rounded.\<close>

definition div_by_f64 :: "real list \<Rightarrow> real option \<Rightarrow> real list option" where
  "div_by_f64 xs m =
     (case m of
        None \<Rightarrow> None
      | Some d \<Rightarrow> if d = 0 then None else Some (map (\<lambda>x. rnd64 (x / d)) xs))"

text \<open>\<^verbatim>\<open>F * w\<close> in float64: every product is rounded.\<close>

definition mul_lat_f64 :: "real list list list \<Rightarrow> real list \<Rightarrow> real list list list" where
  "mul_lat_f64 F w = map (\<lambda>slice. map2 (\<lambda>row wi. map (\<lambda>x. rnd64 (x * wi)) row) slice w) F"

text \<open>
  \<^verbatim>\<open>weight_factor = coslat / coslat.mean(dim='lat')\<close>
\<close>

definition weight_factor_f64 :: "real list \<Rightarrow> real list option" where
  "weight_factor_f64 lats = div_by_f64 (coslat_f64 lats) (mean_f64 (coslat_f64 lats))"

text \<open>
  \<^verbatim>\<open>(atm_control.FLNT * weight_factor).mean(dim=('time', 'lon', 'lat'))\<close>
\<close>

definition global_average_f64 :: "dataset \<Rightarrow> real option" where
  "global_average_f64 ds =
     (case weight_factor_f64 (lat ds) of
        None \<Rightarrow> None
      | Some ws \<Rightarrow> mean_f64 (concat (concat (mul_lat_f64 (FLNT ds) ws))))"

section \<open>Exact sums over the float64 cosines\<close>



section \<open>The average as the specification words it\<close>



section \<open>Small datasets\<close>



text \<open>One latitude row, at the north pole.\<close>

definition grid_pole_row :: dataset where
  "grid_pole_row = \<lparr>lat = [90], lon = [0, 120, 240], gw = [1], FLNT = [[[1, 2, 6]]]\<rparr>"



text \<open>
  The latitudes from \<open>-90\<close> to 90 degrees in steps of 2 degrees, 91 rows, and on them the
  field whose value in row \<open>i\<close> is the cosine of the latitude of row \<open>i\<close> at every
  longitude, at a single time.
\<close>

definition lat_2deg :: "real list" where
  "lat_2deg = map (\<lambda>k. - 90 + 2 * real k) [0..<91]"

definition cosine_field :: "real list \<Rightarrow> dataset" where
  "cosine_field lons =
     \<lparr>lat = lat_2deg, lon = lons, gw = map (\<lambda>x. cos (deg2rad x)) lat_2deg,
      FLNT = [map (\<lambda>x. map (\<lambda>l. cos (deg2rad x)) lons) lat_2deg]\<rparr>"

section \<open>Sums over the weighted field\<close>



lemma weight_factor_Some:
  assumes "lats \<noteq> []" and "sum_list (coslat lats) \<noteq> 0"
  shows "weight_factor lats =
           Some (map (\<lambda>c. c / (sum_list (coslat lats) / real (length lats))) (coslat lats))"
  using assms by (simp add: weight_factor_def div_by_def mean_def coslat_def)


lemma scaled_row_sum: "sum_list (map (\<lambda>x. x * wi) row) = sum_list row * (wi::real)"
  by (simp add: sum_list_mult_const)

lemma weighted_slice_sum:
  "sum_list (concat (map2 (\<lambda>row wi. map (\<lambda>x. x * wi) row) slice w))
     = sum_list (map2 (\<lambda>row wi. sum_list row * (wi::real)) slice w)"
proof (induction slice arbitrary: w)
  case Nil
  then show ?case by simp
next
  case (Cons row slice)
  then show ?case by (cases w) (simp_all add: scaled_row_sum)
qed

lemma weighted_slice_length:
  "length (concat (map2 (\<lambda>row wi. map (\<lambda>x. x * wi) row) slice w))
     = sum_list (map2 (\<lambda>row (wi::real). length row) slice w)"
proof (induction slice arbitrary: w)
  case Nil
  then show ?case by simp
next
  case (Cons row slice)
  then show ?case by (cases w) simp_all
qed

lemma rows_length_sum:
  assumes "length slice = length w" and "\<forall>row \<in> set slice. length row = m"
  shows "sum_list (map2 (\<lambda>row (wi::real). length row) slice w) = length w * m"
  using assms by (induction slice w rule: list_induct2) simp_all

lemma weighted_field_sum:
  "sum_list (concat (concat (mul_lat F w)))
     = sum_list (map (\<lambda>slice. sum_list (map2 (\<lambda>row wi. sum_list row * wi) slice w)) F)"
  by (induction F) (simp_all add: mul_lat_def weighted_slice_sum)

lemma weighted_field_length:
  assumes "\<forall>slice \<in> set F. length slice = length w \<and> (\<forall>row \<in> set slice. length row = m)"
  shows "length (concat (concat (mul_lat F w))) = length F * (length w * m)"
  using assms
  by (induction F) (simp_all add: mul_lat_def weighted_slice_length rows_length_sum)





lemma field_mean:
  assumes "\<forall>slice \<in> set F. length slice = length w \<and> (\<forall>row \<in> set slice. length row = m)"
    and "F \<noteq> []" and "w \<noteq> []" and "0 < m"
  shows "mean_time_lon_lat (mul_lat F w)
           = Some (sum_list (map (\<lambda>slice. sum_list (map2 (\<lambda>row wi. sum_list row * wi) slice w)) F)
                     / (real (length F) * (real (length w) * real m)))"
proof -
  have len: "length (concat (concat (mul_lat F w))) = length F * (length w * m)"
    using assms(1) by (rule weighted_field_length)
  have "0 < length F * (length w * m)"
    using assms(2,3,4) by simp
  then have "concat (concat (mul_lat F w)) \<noteq> []"
    using len by (metis length_0_conv less_numeral_extra(3))
  then show ?thesis
    by (simp add: mean_time_lon_lat_def mean_def len weighted_field_sum)
qed




lemma sum_list_pos_real:
  assumes "\<forall>x \<in> set xs. 0 \<le> (x::real)" and "\<exists>x \<in> set xs. 0 < x"
  shows "0 < sum_list xs"
  using assms
proof (induction xs)
  case Nil
  then show ?case by simp
next
  case (Cons a xs)
  have nn: "0 \<le> sum_list xs"
    using Cons.prems(1) by (simp add: sum_list_nonneg)
  show ?case
  proof (cases "0 < a")
    case True
    then show ?thesis using nn by simp
  next
    case False
    then have "\<exists>x \<in> set xs. 0 < x" using Cons.prems(2) by auto
    then have "0 < sum_list xs" using Cons.IH Cons.prems(1) by simp
    then show ?thesis using Cons.prems(1) by (simp add: add_nonneg_pos)
  qed
qed





section \<open>Bounds on one degree\<close>

lemma sin_bounds5:
  assumes "0 \<le> (x::real)"
  shows "x - x ^ 3 / 6 - x ^ 5 / 120 \<le> sin x" and "sin x \<le> x - x ^ 3 / 6 + x ^ 5 / 120"
proof -
  have c: "sin_coeff (Suc 0) = 1" "sin_coeff 2 = 0" "sin_coeff 3 = - 1 / 6" "sin_coeff 4 = 0"
    by (simp_all add: sin_coeff_def fact_numeral)
  have five: "{..<5::nat} = {0, 1, 2, 3, 4}" by auto
  have s: "(\<Sum>m<5. sin_coeff m * x ^ m) = x - x ^ 3 / 6"
    by (simp add: five c)
  have f: "inverse (fact 5) * \<bar>x\<bar> ^ 5 = x ^ 5 / 120"
    using assms by (simp add: fact_numeral)
  have "\<bar>sin x - (x - x ^ 3 / 6)\<bar> \<le> x ^ 5 / 120"
    using Maclaurin_sin_bound [of x 5] by (simp only: s f)
  then show "x - x ^ 3 / 6 - x ^ 5 / 120 \<le> sin x" and "sin x \<le> x - x ^ 3 / 6 + x ^ 5 / 120"
    by linarith+
qed

lemma pi_upper: "pi < 315 / 100"
proof -
  define x where "x = pi / 6"
  have x0: "0 \<le> x" by (simp add: x_def)
  have sx: "sin x = 1 / 2" by (simp add: x_def sin_30)
  have step: "x \<le> 1 / 2 + u ^ 3 / 6 + u ^ 5 / 120" if "x \<le> u" for u
  proof -
    have "x ^ 3 \<le> u ^ 3" "x ^ 5 \<le> u ^ 5"
      using x0 that by (simp_all add: power_mono)
    moreover have "x - x ^ 3 / 6 - x ^ 5 / 120 \<le> 1 / 2"
      using sin_bounds5(1) [OF x0] sx by simp
    ultimately show ?thesis by simp
  qed
  have "x \<le> 2 / 3"
    using pi_less_4 by (simp add: x_def)
  then have "x \<le> 1 / 2 + (2 / 3) ^ 3 / 6 + (2 / 3) ^ 5 / 120" by (rule step)
  then have "x \<le> 551 / 1000" by (simp add: eval_nat_numeral)
  then have "x \<le> 1 / 2 + (551 / 1000) ^ 3 / 6 + (551 / 1000) ^ 5 / 120" by (rule step)
  then have "x \<le> 5284 / 10000" by (simp add: eval_nat_numeral)
  then have "x \<le> 1 / 2 + (5284 / 10000) ^ 3 / 6 + (5284 / 10000) ^ 5 / 120" by (rule step)
  then have "x < 525 / 1000" by (simp add: eval_nat_numeral)
  then show ?thesis by (simp add: x_def)
qed

lemma pi_lower: "314 / 100 < pi"
proof -
  define x where "x = pi / 6"
  have x0: "0 \<le> x" by (simp add: x_def)
  have sx: "sin x = 1 / 2" by (simp add: x_def sin_30)
  have xu: "x \<le> 525 / 1000"
    using pi_upper by (simp add: x_def)
  then have u5: "x ^ 5 \<le> (525 / 1000) ^ 5"
    using x0 by (simp add: power_mono)
  have step: "1 / 2 + l ^ 3 / 6 - (525 / 1000) ^ 5 / 120 \<le> x" if "l \<le> x" "0 \<le> l" for l
  proof -
    have "l ^ 3 \<le> x ^ 3"
      using that by (simp add: power_mono)
    moreover have "1 / 2 \<le> x - x ^ 3 / 6 + x ^ 5 / 120"
      using sin_bounds5(2) [OF x0] sx by simp
    ultimately show ?thesis using u5 by simp
  qed
  have "1 / 2 \<le> x"
    using sin_x_le_x [OF x0] sx by simp
  then have "1 / 2 + (1 / 2) ^ 3 / 6 - (525 / 1000) ^ 5 / 120 \<le> x" by (rule step) simp
  then have "52 / 100 \<le> x" by (simp add: eval_nat_numeral)
  then have "1 / 2 + (52 / 100) ^ 3 / 6 - (525 / 1000) ^ 5 / 120 \<le> x" by (rule step) simp
  then have "523 / 1000 \<le> x" by (simp add: eval_nat_numeral)
  then have "1 / 2 + (523 / 1000) ^ 3 / 6 - (525 / 1000) ^ 5 / 120 \<le> x" by (rule step) simp
  then have "5234 / 10000 < x" by (simp add: eval_nat_numeral)
  then show ?thesis by (simp add: x_def)
qed

lemma cos_lower_quadratic: "1 - x\<^sup>2 / 2 \<le> cos (x::real)"
proof -
  have "\<bar>sin (x / 2)\<bar> \<le> \<bar>x / 2\<bar>"
    by (rule abs_sin_x_le_abs_x)
  then have "\<bar>sin (x / 2)\<bar>\<^sup>2 \<le> \<bar>x / 2\<bar>\<^sup>2"
    by (intro power_mono) simp_all
  then have "(sin (x / 2))\<^sup>2 \<le> x\<^sup>2 / 4"
    by (simp add: power_divide)
  moreover have "cos x = 1 - 2 * (sin (x / 2))\<^sup>2"
    using cos_double_sin [of "x / 2"] by simp
  ultimately show ?thesis by simp
qed

lemma tan_one_degree: "174 / 10000 < tan (pi / 180)" "tan (pi / 180) < 1755 / 100000"
proof -
  define d where "d = pi / 180"
  have lo: "1744 / 100000 < d" and hi: "d < 175 / 10000"
    using pi_lower pi_upper by (simp_all add: d_def)
  have d0: "0 \<le> d" using lo by simp
  have "d ^ 3 \<le> (175 / 10000) ^ 3" "d ^ 5 \<le> (175 / 10000) ^ 5"
    using d0 hi by (simp_all add: power_mono)
  moreover have "d - d ^ 3 / 6 - d ^ 5 / 120 \<le> sin d"
    using d0 by (rule sin_bounds5(1))
  ultimately have "1744 / 100000 - (175 / 10000) ^ 3 / 6 - (175 / 10000) ^ 5 / 120 < sin d"
    using lo by linarith
  then have sin_lo: "174 / 10000 < sin d"
    by (simp add: eval_nat_numeral)
  have sin_hi: "sin d < 175 / 10000"
    using sin_x_le_x [OF d0] hi by simp
  have "d\<^sup>2 \<le> (175 / 10000)\<^sup>2"
    using d0 hi by (simp add: power_mono)
  then have "1 - (175 / 10000)\<^sup>2 / 2 \<le> cos d"
    using cos_lower_quadratic [of d] by linarith
  then have cos_lo: "9998 / 10000 < cos d"
    by (simp add: eval_nat_numeral)
  have cos_hi: "cos d \<le> 1" by simp
  have cos_pos: "0 < cos d" using cos_lo by simp
  have "174 / 10000 * cos d \<le> 174 / 10000 * 1"
    using cos_hi by (intro mult_left_mono) simp_all
  then have "174 / 10000 * cos d < sin d"
    using sin_lo by linarith
  then have "174 / 10000 < sin d / cos d"
    using cos_pos by (simp add: pos_less_divide_eq)
  then show "174 / 10000 < tan (pi / 180)"
    by (simp add: tan_def d_def)
  have "1755 / 100000 * (9998 / 10000) < 1755 / 100000 * cos d"
    using cos_lo by (intro mult_strict_left_mono) simp_all
  then have "sin d < 1755 / 100000 * cos d"
    using sin_hi by linarith
  then have "sin d / cos d < 1755 / 100000"
    using cos_pos by (simp add: pos_divide_less_eq)
  then show "tan (pi / 180) < 1755 / 100000"
    by (simp add: tan_def d_def)
qed

lemma sin_telescope:
  "2 * sin d * (\<Sum>k<N. sin (2 * real k * d)) = cos d - cos ((2 * real N - 1) * d)"
proof (induction N)
  case 0
  then show ?case by simp
next
  case (Suc N)
  have "2 * sin d * sin (2 * real N * d) = cos (2 * real N * d - d) - cos (2 * real N * d + d)"
    by (simp add: cos_diff cos_add)
  moreover have "2 * real N * d - d = (2 * real N - 1) * d"
    and "2 * real N * d + d = (2 * real (Suc N) - 1) * d"
    by (simp_all add: algebra_simps)
  ultimately have "2 * sin d * sin (2 * real N * d)
      = cos ((2 * real N - 1) * d) - cos ((2 * real (Suc N) - 1) * d)"
    by simp
  then show ?case
    using Suc.IH by (simp add: algebra_simps)
qed

lemma cos_telescope:
  "2 * sin e * (\<Sum>k<N. cos (2 * real k * e)) = sin ((2 * real N - 1) * e) + sin e"
proof (induction N)
  case 0
  then show ?case by simp
next
  case (Suc N)
  have "2 * sin e * cos (2 * real N * e) = sin (2 * real N * e + e) - sin (2 * real N * e - e)"
    by (simp add: sin_diff sin_add)
  moreover have "2 * real N * e - e = (2 * real N - 1) * e"
    and "2 * real N * e + e = (2 * real (Suc N) - 1) * e"
    by (simp_all add: algebra_simps)
  ultimately have "2 * sin e * cos (2 * real N * e)
      = sin ((2 * real (Suc N) - 1) * e) - sin ((2 * real N - 1) * e)"
    by simp
  then show ?case
    using Suc.IH by (simp add: algebra_simps)
qed

section \<open>The cosine field on the two-degree grid\<close>

lemma cos_2deg_grid: "cos (deg2rad (- 90 + 2 * real k)) = sin (2 * real k * (pi / 180))"
proof -
  have "deg2rad (- 90 + 2 * real k) = 2 * real k * (pi / 180) - pi / 2"
    by (simp add: deg2rad_def algebra_simps)
  then show ?thesis
    by (simp add: cos_diff)
qed

lemma coslat_2deg: "coslat lat_2deg = map (\<lambda>k. sin (2 * real k * (pi / 180))) [0..<91]"
  by (simp only: coslat_def lat_2deg_def map_map comp_def cos_2deg_grid)

lemma upt_sum: "sum_list (map f [0..<n]) = (\<Sum>k<n. f k :: real)"
  by (simp add: interv_sum_list_conv_sum_set_nat atLeast0LessThan)

lemma sin_one_degree_pos: "0 < sin (pi / 180)" "0 < sin (2 * (pi / 180))"
  by (rule sin_gt_zero; simp)+

lemma coslat_2deg_sum: "sum_list (coslat lat_2deg) = cot (pi / 180)"
proof -
  let ?d = "pi / 180"
  have "(2 * real 91 - 1) * ?d = ?d + pi"
    by simp
  then have c: "cos ((2 * real 91 - 1) * ?d) = - cos ?d"
    by (simp only: cos_periodic_pi)
  have "2 * sin ?d * sum_list (coslat lat_2deg) = cos ?d - cos ((2 * real 91 - 1) * ?d)"
    unfolding coslat_2deg upt_sum by (rule sin_telescope)
  then have "2 * sin ?d * sum_list (coslat lat_2deg) = 2 * cos ?d"
    unfolding c by simp
  then have "sum_list (coslat lat_2deg) = cos ?d / sin ?d"
    using sin_one_degree_pos(1) by (simp add: field_simps)
  then show ?thesis by (simp add: cot_def)
qed

lemma coslat_2deg_squares: "sum_list (map (\<lambda>c. c * c) (coslat lat_2deg)) = 45"
proof -
  let ?d = "pi / 180"
  let ?e = "2 * ?d"
  let ?C = "\<Sum>k<91. cos (2 * real k * ?e)"
  have sq: "sin (2 * real k * ?d) * sin (2 * real k * ?d) = 1 / 2 - cos (2 * real k * ?e) / 2" for k
  proof -
    have "2 * (2 * real k * ?d) = 2 * real k * ?e" by simp
    then have "cos (2 * real k * ?e) = 1 - 2 * (sin (2 * real k * ?d))\<^sup>2"
      using cos_double_sin [of "2 * real k * ?d"] by (simp only:)
    then show ?thesis
      unfolding power2_eq_square by linarith
  qed
  have "sum_list (map (\<lambda>c. c * c) (coslat lat_2deg))
          = (\<Sum>k<91. 1 / 2 - cos (2 * real k * ?e) / 2)"
    by (simp only: coslat_2deg map_map comp_def sq upt_sum)
  also have "\<dots> = (\<Sum>k<(91::nat). 1 / 2 :: real) - (\<Sum>k<91. cos (2 * real k * ?e) / 2)"
    by (rule sum_subtractf)
  also have "(\<Sum>k<91. cos (2 * real k * ?e) / 2) = ?C / 2"
    by (rule sum_divide_distrib [symmetric])
  also have "(\<Sum>k<(91::nat). 1 / 2) = (91 / 2 :: real)"
    by simp
  finally have s: "sum_list (map (\<lambda>c. c * c) (coslat lat_2deg)) = 91 / 2 - ?C / 2" .
  have "(2 * real 91 - 1) * ?e = ?e + 2 * pi"
    by simp
  then have p: "sin ((2 * real 91 - 1) * ?e) = sin ?e"
    by (simp only: sin_periodic)
  have "2 * sin ?e * ?C = sin ((2 * real 91 - 1) * ?e) + sin ?e"
    by (rule cos_telescope)
  then have "2 * sin ?e * ?C = 2 * sin ?e * 1"
    unfolding p by simp
  then have "?C = 1"
    using sin_one_degree_pos(2) by simp
  then show ?thesis
    using s by simp
qed

lemma const_rows_sum:
  "sum_list (concat (map (\<lambda>x. map (\<lambda>l. g x) lons) lats))
     = real (length lons) * sum_list (map g lats)"
  by (induction lats) (simp_all add: sum_list_triv algebra_simps)

lemma const_rows_length:
  "length (concat (map (\<lambda>x. map (\<lambda>l. g x) lons) lats)) = length lats * length lons"
  by (induction lats) simp_all

lemma cosine_rows_weighted_sum:
  "sum_list (map2 (\<lambda>row wi. sum_list row * wi)
       (map (\<lambda>x. map (\<lambda>l. cos (deg2rad x)) lons) lats) (map (\<lambda>c. c / D) (coslat lats)))
     = real (length lons) * sum_list (map (\<lambda>c. c * c) (coslat lats)) / D"
  by (induction lats) (simp_all add: coslat_def sum_list_triv algebra_simps add_divide_distrib)

lemma length_lat_2deg: "length lat_2deg = 91"
  by (simp add: lat_2deg_def)

lemma cot_one_degree_pos: "0 < cot (pi / 180)"
proof -
  have "0 < cos (pi / 180)"
    by (rule cos_gt_zero) simp_all
  then show ?thesis
    using sin_one_degree_pos(1) by (simp add: cot_def)
qed

lemma cosine_field_unweighted:
  assumes "lons \<noteq> []"
  shows "mean_time_lon_lat (FLNT (cosine_field lons)) = Some (cot (pi / 180) / 91)"
proof -
  let ?F = "map (\<lambda>x. map (\<lambda>l. cos (deg2rad x)) lons) lat_2deg"
  have len: "length (concat ?F) = 91 * length lons"
    by (simp only: const_rows_length length_lat_2deg)
  have ne: "concat ?F \<noteq> []"
    using len assms by (metis length_0_conv mult_is_0 zero_neq_numeral)
  have "sum_list (concat ?F) = real (length lons) * sum_list (coslat lat_2deg)"
    unfolding coslat_def by (rule const_rows_sum)
  then have "sum_list (concat ?F) = real (length lons) * cot (pi / 180)"
    by (simp only: coslat_2deg_sum)
  then have "mean (concat ?F) = Some (real (length lons) * cot (pi / 180) / real (91 * length lons))"
    using ne len by (simp only: mean_def if_False)
  moreover have "real (length lons) * cot (pi / 180) / real (91 * length lons) = cot (pi / 180) / 91"
    using assms by simp
  ultimately show ?thesis
    by (simp add: mean_time_lon_lat_def cosine_field_def)
qed

lemma cosine_field_weighted:
  assumes "lons \<noteq> []"
  shows "global_average (cosine_field lons) = Some (45 * tan (pi / 180))"
proof -
  let ?S = "cot (pi / 180)"
  let ?D = "?S / real (length lat_2deg)"
  let ?w = "map (\<lambda>c. c / ?D) (coslat lat_2deg)"
  let ?slice = "map (\<lambda>x. map (\<lambda>l. cos (deg2rad x)) lons) lat_2deg"
  let ?m = "length lons"
  have S: "sum_list (coslat lat_2deg) = ?S"
    by (rule coslat_2deg_sum)
  have S0: "?S \<noteq> 0"
    using cot_one_degree_pos by simp
  have ne: "lat_2deg \<noteq> []"
    by (simp add: lat_2deg_def)
  have w: "weight_factor lat_2deg = Some ?w"
    using weight_factor_Some [OF ne] S S0 by simp
  have shape: "\<forall>slice \<in> set [?slice]. length slice = length ?w \<and>
                 (\<forall>row \<in> set slice. length row = ?m)"
    by (auto simp: coslat_def)
  have wne: "?w \<noteq> []"
    using ne by (simp add: coslat_def)
  have mpos: "0 < ?m"
    using assms by simp
  have "mean_time_lon_lat (mul_lat [?slice] ?w)
          = Some (sum_list (map (\<lambda>slice. sum_list (map2 (\<lambda>row wi. sum_list row * wi) slice ?w)) [?slice])
                   / (real (length [?slice]) * (real (length ?w) * real ?m)))"
    using shape _ wne mpos by (rule field_mean) simp
  also have "sum_list (map (\<lambda>slice. sum_list (map2 (\<lambda>row wi. sum_list row * wi) slice ?w)) [?slice])
          = real ?m * sum_list (map (\<lambda>c. c * c) (coslat lat_2deg)) / ?D"
    by (simp only: list.map sum_list.Cons sum_list.Nil add_0_right cosine_rows_weighted_sum)
  also have "\<dots> = real ?m * 45 / ?D"
    by (simp only: coslat_2deg_squares)
  also have "real ?m * 45 / ?D / (real (length [?slice]) * (real (length ?w) * real ?m)) = 45 / ?S"
    using assms S0 by (simp add: coslat_def length_lat_2deg)
  also have "45 / ?S = 45 * tan (pi / 180)"
    by (simp add: cot_def tan_def)
  finally show ?thesis
    by (simp add: global_average_def weighted_mean_def cosine_field_def w)
qed

lemma one_degree_means:
  "62 / 100 < cot (pi / 180) / 91" "cot (pi / 180) / 91 < 64 / 100"
  "78 / 100 < 45 * tan (pi / 180)" "45 * tan (pi / 180) < 79 / 100"
proof -
  let ?t = "tan (pi / 180)"
  have t: "174 / 10000 < ?t" "?t < 1755 / 100000"
    by (rule tan_one_degree)+
  then have tpos: "0 < ?t" by simp
  have c: "cot (pi / 180) = 1 / ?t"
    by (simp add: cot_def tan_def)
  show "78 / 100 < 45 * ?t" "45 * ?t < 79 / 100"
    using t by simp_all
  have "62 / 100 * 91 * ?t < 1"
    using t(2) by simp
  then show "62 / 100 < cot (pi / 180) / 91"
    using tpos by (simp add: c field_simps)
  have "1 < 64 / 100 * 91 * ?t"
    using t(1) by simp
  then show "cot (pi / 180) / 91 < 64 / 100"
    using tpos by (simp add: c field_simps)
qed

section \<open>Rounding to float64\<close>

lemma round_even_le:
  assumes "r < of_int N + 1 / 2"
  shows "round_even r \<le> N"
proof -
  have "\<lfloor>r\<rfloor> \<le> N"
    using assms by linarith
  moreover have "\<lfloor>r\<rfloor> + 1 \<le> N" if "1 / 2 \<le> r - of_int \<lfloor>r\<rfloor>"
    using that assms by linarith
  ultimately show ?thesis
    by (auto simp: round_even_def Let_def)
qed

lemma round_even_ge:
  assumes "of_int N \<le> r"
  shows "N \<le> round_even r"
proof -
  have "N \<le> \<lfloor>r\<rfloor>"
    using assms by linarith
  then show ?thesis
    by (auto simp: round_even_def Let_def)
qed

lemma round_even_near:
  assumes "\<bar>r - of_int N\<bar> < 1 / 2"
  shows "round_even r = N"
proof -
  have "round_even r \<le> N"
    using assms by (intro round_even_le) linarith
  moreover have "N \<le> round_even r"
  proof (cases "of_int N \<le> r")
    case True
    then show ?thesis by (rule round_even_ge)
  next
    case False
    then have f: "\<lfloor>r\<rfloor> = N - 1"
      using assms by linarith
    then have "1 / 2 < r - of_int \<lfloor>r\<rfloor>"
      using assms False by simp
    then show ?thesis
      using f by (simp add: round_even_def Let_def)
  qed
  ultimately show ?thesis by simp
qed

lemma round_even_err: "\<bar>of_int (round_even r) - r\<bar> \<le> 1 / 2"
proof -
  have "of_int \<lfloor>r\<rfloor> \<le> r" "r < of_int \<lfloor>r\<rfloor> + 1"
    by linarith+
  then show ?thesis
    by (auto simp: round_even_def Let_def)
qed


lemma round_even_of_int: "round_even (of_int N) = N"
  by (rule round_even_near) simp


lemma two_powr_shift: "(2::real) powr (a - real n + real n) = 2 powr (a - real n) * 2 ^ n"
  by (simp only: powr_add powr_realpow zero_less_numeral)

lemma rnd64_zero: "rnd64 0 = 0"
  by (simp add: rnd64_def)

lemma rnd64_binade:
  assumes "- 1022 \<le> k" and "2 powr of_int k \<le> \<bar>x\<bar>" and "\<bar>x\<bar> < 2 powr (of_int k + 1)"
  shows "rnd64 x = sgn x * (2 powr (of_int k - 52) * of_int (round_even (\<bar>x\<bar> / 2 powr (of_int k - 52))))"
proof -
  have pos: "0 < \<bar>x\<bar>"
    using assms(2) by (smt (verit) powr_gt_zero)
  then have "x \<noteq> 0" by auto
  moreover have "\<lfloor>log 2 \<bar>x\<bar>\<rfloor> = k"
    using pos assms(2,3) by (simp add: floor_log_eq_powr_iff)
  ultimately show ?thesis
    using assms(1) by (simp add: rnd64_def Let_def max_def)
qed

lemma rnd64_small:
  assumes "\<bar>x\<bar> < 1"
  shows "\<bar>rnd64 x\<bar> \<le> 1"
proof (cases "x = 0")
  case True
  then show ?thesis by (simp add: rnd64_def)
next
  case False
  define l where "l = \<lfloor>log 2 \<bar>x\<bar>\<rfloor>"
  define e where "e = max l (- 1022)"
  define q :: real where "q = 2 powr (of_int e - 52)"
  have pos: "0 < \<bar>x\<bar>" using False by simp
  have "log 2 \<bar>x\<bar> < 0"
    using pos assms by simp
  then have l: "l \<le> - 1"
    unfolding l_def by linarith
  then have e: "e \<le> - 1"
    by (simp add: e_def)
  have "\<bar>x\<bar> < 2 powr (of_int l + 1)"
    using pos floor_log_eq_powr_iff [of "\<bar>x\<bar>" 2 l] by (simp add: l_def)
  also have "\<dots> \<le> 2 powr (of_int e + 1)"
    by (simp add: e_def)
  finally have x: "\<bar>x\<bar> < 2 powr (of_int e + 1)" .
  have q: "0 < q" by (simp add: q_def)
  have top: "2 powr (of_int e + 1) = q * 2 ^ 53"
    using two_powr_shift [of "of_int e + 1" 53] by (simp add: q_def add.commute)
  then have "\<bar>x\<bar> / q < 2 ^ 53"
    using x q by (simp add: field_simps)
  moreover have "of_int (2 ^ 53) = (2 ^ 53 :: real)" by simp
  ultimately have "\<bar>x\<bar> / q < of_int (2 ^ 53) + 1 / 2" by linarith
  then have hi: "round_even (\<bar>x\<bar> / q) \<le> 2 ^ 53"
    by (rule round_even_le)
  have "of_int 0 \<le> \<bar>x\<bar> / q"
    using q by simp
  then have lo: "0 \<le> round_even (\<bar>x\<bar> / q)"
    by (rule round_even_ge)
  have "rnd64 x = sgn x * (q * of_int (round_even (\<bar>x\<bar> / q)))"
    using False by (simp add: rnd64_def Let_def l_def e_def q_def)
  then have "\<bar>rnd64 x\<bar> = q * of_int (round_even (\<bar>x\<bar> / q))"
    using False q lo by (simp add: abs_mult abs_sgn_eq)
  also have "\<dots> \<le> q * of_int (2 ^ 53)"
    using hi q by (intro mult_left_mono) simp_all
  also have "\<dots> = 2 powr (of_int e + 1)"
    using top by simp
  also have "\<dots> \<le> 2 powr 0"
    using e by (intro powr_mono) simp_all
  finally show ?thesis by simp
qed

lemma rnd64_pos:
  assumes "2 powr (- 1022) \<le> z"
  shows "0 < rnd64 z"
proof -
  define l where "l = \<lfloor>log 2 z\<rfloor>"
  define q :: real where "q = 2 powr (of_int l - 52)"
  have pos: "0 < z"
    using assms by (smt (verit) powr_gt_zero)
  have "- 1022 \<le> log 2 z"
    using pos assms by (simp add: le_log_iff)
  then have l: "- 1022 \<le> l"
    unfolding l_def by linarith
  have b: "2 powr of_int l \<le> z" "z < 2 powr (of_int l + 1)"
    using pos floor_log_eq_powr_iff [of z 2 l] by (simp_all add: l_def)
  have q: "0 < q" by (simp add: q_def)
  have "2 powr of_int l = q * 2 ^ 52"
    using two_powr_shift [of "of_int l" 52] by (simp add: q_def)
  then have "2 ^ 52 \<le> z / q"
    using b(1) q by (simp add: field_simps)
  then have "of_int (2 ^ 52) \<le> \<bar>z\<bar> / q"
    using pos by simp
  then have "2 ^ 52 \<le> round_even (\<bar>z\<bar> / q)"
    by (rule round_even_ge)
  then have r: "0 < round_even (\<bar>z\<bar> / q)"
    by simp
  have "rnd64 z = sgn z * (q * of_int (round_even (\<bar>z\<bar> / q)))"
    using l b pos by (subst rnd64_binade [of l]) (simp_all add: q_def)
  then show ?thesis
    using pos q r by simp
qed

lemma rnd64_one: "rnd64 1 = 1"
proof -
  have "round_even (2 ^ 52) = 2 ^ 52"
    by (rule round_even_near) simp
  then show ?thesis
    by (subst rnd64_binade [of 0]) (simp_all add: powr_minus)
qed

lemma rnd64_near_minus_one:
  assumes "- 1 \<le> z" and "z < - 1 + 1 / 2 ^ 54"
  shows "rnd64 z = - 1"
proof (cases "z = - 1")
  case True
  have "round_even (2 ^ 52) = 2 ^ 52"
    by (rule round_even_near) simp
  then show ?thesis
    unfolding True by (subst rnd64_binade [of 0]) (simp_all add: powr_minus)
next
  case False
  then have z: "\<bar>z\<bar> < 1" "1 - 1 / 2 ^ 54 < \<bar>z\<bar>" "z < 0"
    using assms by simp_all
  have "\<bar>\<bar>z\<bar> * 2 ^ 53 - of_int (2 ^ 53)\<bar> < 1 / 2"
    using z(1,2) by (simp add: abs_if field_simps)
  then have r: "round_even (\<bar>z\<bar> * 2 ^ 53) = 2 ^ 53"
    by (rule round_even_near)
  have "rnd64 z = sgn z * (2 powr (of_int (- 1) - 52) *
          of_int (round_even (\<bar>z\<bar> / 2 powr (of_int (- 1) - 52))))"
    using z by (intro rnd64_binade) (simp_all add: powr_minus)
  also have "2 powr (of_int (- 1) - 52) = (1 / 2 ^ 53 :: real)"
    by (simp add: powr_minus inverse_eq_divide)
  finally show ?thesis
    using z(3) r by simp
qed

lemma rnd64_grid:
  assumes "- 1022 \<le> k" and "q = 2 powr (of_int k - 52)"
    and "q * 2 ^ 52 \<le> z" and "z < q * 2 ^ 53"
  shows "rnd64 z = q * of_int (round_even (z / q))"
proof -
  have q: "0 < q"
    using assms(2) by simp
  have lo: "2 powr of_int k = q * 2 ^ 52"
    using two_powr_shift [of "of_int k" 52] by (simp add: assms(2))
  have hi: "2 powr (of_int k + 1) = q * 2 ^ 53"
    using two_powr_shift [of "of_int k + 1" 53] by (simp add: assms(2) add.commute)
  have "0 < q * 2 ^ 52"
    using q by simp
  then have z: "0 < z"
    using assms(3) by linarith
  have "rnd64 z = sgn z * (2 powr (of_int k - 52) *
          of_int (round_even (\<bar>z\<bar> / 2 powr (of_int k - 52))))"
    using assms(1,3,4) z by (intro rnd64_binade) (simp_all add: lo hi)
  then show ?thesis
    using z by (simp add: assms(2))
qed

lemma rnd64_near:
  assumes "- 1022 \<le> k" and "q = 2 powr (of_int k - 52)"
    and "q * 2 ^ 52 \<le> z" and "z < q * 2 ^ 53"
    and "of_int N - 1 / 2 < z / q" and "z / q < of_int N + 1 / 2"
  shows "rnd64 z = q * of_int N"
proof -
  have "\<bar>z / q - of_int N\<bar> < 1 / 2"
    using assms(5,6) by linarith
  then have "round_even (z / q) = N"
    by (rule round_even_near)
  then show ?thesis
    using rnd64_grid [OF assms(1-4)] by simp
qed


lemma rnd64_rel:
  assumes "2 powr (- 1022) \<le> z"
  shows "z - z / 2 ^ 53 \<le> rnd64 z" and "rnd64 z \<le> z + z / 2 ^ 53"
proof -
  define l where "l = \<lfloor>log 2 z\<rfloor>"
  define q :: real where "q = 2 powr (of_int l - 52)"
  have pos: "0 < z"
    using assms by (smt (verit) powr_gt_zero)
  have "- 1022 \<le> log 2 z"
    using pos assms by (simp add: le_log_iff)
  then have l: "- 1022 \<le> l"
    unfolding l_def by linarith
  have b: "2 powr of_int l \<le> z" "z < 2 powr (of_int l + 1)"
    using pos floor_log_eq_powr_iff [of z 2 l] by (simp_all add: l_def)
  have q: "0 < q" by (simp add: q_def)
  have lo: "2 powr of_int l = q * 2 ^ 52"
    using two_powr_shift [of "of_int l" 52] by (simp add: q_def)
  have hi: "2 powr (of_int l + 1) = q * 2 ^ 53"
    using two_powr_shift [of "of_int l + 1" 53] by (simp add: q_def add.commute)
  have r: "rnd64 z = q * of_int (round_even (z / q))"
    using l q_def b by (intro rnd64_grid [of l]) (simp_all add: lo hi)
  have "rnd64 z - z = q * (of_int (round_even (z / q)) - z / q)"
    using q by (simp add: r algebra_simps)
  then have "\<bar>rnd64 z - z\<bar> = q * \<bar>of_int (round_even (z / q)) - z / q\<bar>"
    using q by (simp add: abs_mult)
  also have "\<dots> \<le> q * (1 / 2)"
    using q round_even_err [of "z / q"] by (intro mult_left_mono) simp_all
  also have "\<dots> \<le> z / 2 ^ 53"
    using b(1) by (simp add: lo)
  finally have "\<bar>rnd64 z - z\<bar> \<le> z / 2 ^ 53" .
  then show "z - z / 2 ^ 53 \<le> rnd64 z" and "rnd64 z \<le> z + z / 2 ^ 53"
    by linarith+
qed

lemma rnd64_ge_pow2:
  assumes "- 1022 \<le> k" and "2 powr of_int k \<le> z"
  shows "2 powr of_int k \<le> rnd64 z"
proof -
  define l where "l = \<lfloor>log 2 z\<rfloor>"
  define q :: real where "q = 2 powr (of_int l - 52)"
  have pos: "0 < z"
    using assms(2) by (smt (verit) powr_gt_zero)
  have "of_int k \<le> log 2 z"
    using pos assms(2) by (simp add: le_log_iff)
  then have kl: "k \<le> l"
    unfolding l_def by linarith
  have b: "2 powr of_int l \<le> z" "z < 2 powr (of_int l + 1)"
    using pos floor_log_eq_powr_iff [of z 2 l] by (simp_all add: l_def)
  have q: "0 < q" by (simp add: q_def)
  have lo: "2 powr of_int l = q * 2 ^ 52"
    using two_powr_shift [of "of_int l" 52] by (simp add: q_def)
  have hi: "2 powr (of_int l + 1) = q * 2 ^ 53"
    using two_powr_shift [of "of_int l + 1" 53] by (simp add: q_def add.commute)
  have r: "rnd64 z = q * of_int (round_even (z / q))"
    using assms(1) kl q_def b by (intro rnd64_grid [of l]) (simp_all add: lo hi)
  have "of_int (2 ^ 52) \<le> z / q"
    using b(1) q by (simp add: lo field_simps)
  then have "2 ^ 52 \<le> round_even (z / q)"
    by (rule round_even_ge)
  then have "(2::real) ^ 52 \<le> of_int (round_even (z / q))"
    by simp
  then have "q * 2 ^ 52 \<le> rnd64 z"
    unfolding r using q by (intro mult_left_mono) simp_all
  moreover have "(2::real) powr of_int k \<le> 2 powr of_int l"
    using kl by (intro powr_mono) simp_all
  ultimately show ?thesis
    using lo by linarith
qed


lemma rnd64_minus: "rnd64 (- z) = - rnd64 z"
  by (simp add: rnd64_def Let_def)

lemma rnd64_idem_pos:
  assumes "0 < z"
  shows "rnd64 (rnd64 z) = rnd64 z"
proof -
  define l where "l = \<lfloor>log 2 z\<rfloor>"
  define e where "e = max l (- 1022)"
  define q :: real where "q = 2 powr (of_int e - 52)"
  define N where "N = round_even (z / q)"
  have q: "0 < q" by (simp add: q_def)
  have e: "- 1022 \<le> e" "l \<le> e" by (simp_all add: e_def)
  have b: "2 powr of_int l \<le> z" "z < 2 powr (of_int l + 1)"
    using assms floor_log_eq_powr_iff [of z 2 l] by (simp_all add: l_def)
  have lo: "2 powr of_int e = q * 2 ^ 52"
    using two_powr_shift [of "of_int e" 52] by (simp add: q_def)
  have hi: "2 powr (of_int e + 1) = q * 2 ^ 53"
    using two_powr_shift [of "of_int e + 1" 53] by (simp add: q_def add.commute)
  have r: "rnd64 z = q * of_int N"
    using assms by (simp add: rnd64_def Let_def l_def e_def q_def N_def)
  have "z < 2 powr (of_int e + 1)"
    using b(2) e(2) by (smt (verit) powr_mono of_int_le_iff)
  then have "z < q * 2 ^ 53"
    by (simp only: hi)
  then have "z / q < 2 ^ 53"
    using q by (simp add: field_simps)
  moreover have "of_int (2 ^ 53) = (2 ^ 53 :: real)" by simp
  ultimately have "z / q < of_int (2 ^ 53) + 1 / 2" by linarith
  then have N_hi: "N \<le> 2 ^ 53"
    unfolding N_def by (rule round_even_le)
  have "of_int 0 \<le> z / q"
    using q assms by simp
  then have N_lo: "0 \<le> N"
    unfolding N_def by (rule round_even_ge)
  consider "N = 0" | "N = 2 ^ 53" | "2 ^ 52 \<le> N" "N < 2 ^ 53" | "0 < N" "N < 2 ^ 52"
    using N_lo N_hi by linarith
  then show ?thesis
  proof cases
    case 1
    then show ?thesis by (simp add: r rnd64_zero)
  next
    case 2
    define q' :: real where "q' = 2 powr (of_int (e + 1) - 52)"
    have q': "q' = q * 2"
      using powr_add [of "2::real" "of_int e - 52" 1] by (simp add: q'_def q_def algebra_simps)
    have v: "q * of_int N = q' * 2 ^ 52"
      by (simp add: 2 q')
    have "rnd64 (q' * 2 ^ 52) = q' * of_int (round_even (q' * 2 ^ 52 / q'))"
      using e(1) q by (intro rnd64_grid [of "e + 1"]) (simp_all add: q'_def)
    moreover have "q' * 2 ^ 52 / q' = of_int (2 ^ 52)"
      using q by (simp add: q')
    ultimately have "rnd64 (q' * 2 ^ 52) = q' * 2 ^ 52"
      by (simp only: round_even_of_int) simp
    then show ?thesis
      by (simp only: r v)
  next
    case 3
    have N: "(2::real) ^ 52 \<le> of_int N" "of_int N < (2::real) ^ 53"
      using 3 by simp_all
    have "rnd64 (q * of_int N) = q * of_int (round_even (q * of_int N / q))"
    proof (rule rnd64_grid [of e])
      show "q * 2 ^ 52 \<le> q * of_int N"
        using N(1) q by (intro mult_left_mono) simp_all
      show "q * of_int N < q * 2 ^ 53"
        using N(2) q by (intro mult_strict_left_mono) simp_all
    qed (simp_all add: e q_def)
    moreover have "q * of_int N / q = of_int N"
      using q by simp
    ultimately show ?thesis
      by (simp only: r round_even_of_int)
  next
    case 4
    have "e = - 1022"
    proof (rule ccontr)
      assume "e \<noteq> - 1022"
      then have "e = l"
        using e(1) by (simp add: e_def max_def split: if_splits)
      then have "q * 2 ^ 52 \<le> z"
        using b(1) lo by simp
      then have "of_int (2 ^ 52) \<le> z / q"
        using q by (simp add: field_simps)
      then have "2 ^ 52 \<le> N"
        unfolding N_def by (rule round_even_ge)
      then show False
        using 4(2) by simp
    qed
    define x where "x = q * of_int N"
    have x0: "0 < x"
      using q 4(1) by (simp add: x_def)
    have "of_int N < (2::real) ^ 52"
      using 4(2) by simp
    then have "x < q * 2 ^ 52"
      unfolding x_def using q by (intro mult_strict_left_mono) simp_all
    then have "x < 2 powr (- 1022)"
      using lo \<open>e = - 1022\<close> by simp
    then have "log 2 x < - 1022"
      using x0 by (simp add: log_less_iff)
    then have "\<lfloor>log 2 x\<rfloor> \<le> - 1022"
      by linarith
    then have m: "max \<lfloor>log 2 x\<rfloor> (- 1022) = e"
      using \<open>e = - 1022\<close> by (simp add: max_def)
    have "rnd64 x = q * of_int (round_even (x / q))"
      using x0 by (simp add: rnd64_def Let_def m q_def)
    moreover have "x / q = of_int N"
      using q by (simp add: x_def)
    ultimately show ?thesis
      by (simp only: r round_even_of_int flip: x_def)
  qed
qed

lemma rnd64_idem: "rnd64 (rnd64 z) = rnd64 z"
proof -
  consider "z = 0" | "0 < z" | "0 < - z"
    by linarith
  then show ?thesis
  proof cases
    case 1
    then show ?thesis by (simp add: rnd64_zero)
  next
    case 2
    then show ?thesis by (rule rnd64_idem_pos)
  next
    case 3
    then have "rnd64 (rnd64 (- z)) = rnd64 (- z)"
      by (rule rnd64_idem_pos)
    then show ?thesis
      by (simp add: rnd64_minus)
  qed
qed

lemma rnd64_small_ints: "rnd64 2 = 2" "rnd64 3 = 3" "rnd64 6 = 6" "rnd64 9 = 9"
proof -
  have "rnd64 2 = 1 / 2 ^ 51 * of_int (2 ^ 52)"
    by (rule rnd64_near [where k = 1]) (simp_all add: powr_minus inverse_eq_divide)
  then show "rnd64 2 = 2" by simp
  have "rnd64 3 = 1 / 2 ^ 51 * of_int (3 * 2 ^ 51)"
    by (rule rnd64_near [where k = 1]) (simp_all add: powr_minus inverse_eq_divide)
  then show "rnd64 3 = 3" by simp
  have "rnd64 6 = 1 / 2 ^ 50 * of_int (3 * 2 ^ 51)"
    by (rule rnd64_near [where k = 2]) (simp_all add: powr_minus inverse_eq_divide)
  then show "rnd64 6 = 6" by simp
  have "rnd64 9 = 1 / 2 ^ 49 * of_int (9 * 2 ^ 49)"
    by (rule rnd64_near [where k = 3]) (simp_all add: powr_minus inverse_eq_divide)
  then show "rnd64 9 = 9" by simp
qed

section \<open>The float64 number below a right angle\<close>

lemma sin_horner:
  assumes "0 \<le> (x::real)"
  shows "\<bar>sin x - x * (1 - x\<^sup>2 / 6 * (1 - x\<^sup>2 / 20 * (1 - x\<^sup>2 / 42 * (1 - x\<^sup>2 / 72 *
            (1 - x\<^sup>2 / 110 * (1 - x\<^sup>2 / 156 * (1 - x\<^sup>2 / 210)))))))\<bar>
           \<le> x ^ 17 / 355687428096000"
proof -
  have c: "sin_coeff (Suc 0) = 1" "sin_coeff 2 = 0" "sin_coeff 3 = - 1 / 6" "sin_coeff 4 = 0"
    "sin_coeff 5 = 1 / 120" "sin_coeff 6 = 0" "sin_coeff 7 = - 1 / 5040" "sin_coeff 8 = 0"
    "sin_coeff 9 = 1 / 362880" "sin_coeff 10 = 0" "sin_coeff 11 = - 1 / 39916800"
    "sin_coeff 12 = 0" "sin_coeff 13 = 1 / 6227020800" "sin_coeff 14 = 0"
    "sin_coeff 15 = - 1 / 1307674368000" "sin_coeff 16 = 0"
    by (simp_all add: sin_coeff_def fact_numeral)
  have idx: "{..<17::nat} = {0, 1, 2, 3, 4, 5, 6, 7, 8, 9, 10, 11, 12, 13, 14, 15, 16}"
    by (rule set_eqI) (simp, presburger)
  have s: "(\<Sum>m<17. sin_coeff m * x ^ m)
             = x - x ^ 3 / 6 + x ^ 5 / 120 - x ^ 7 / 5040 + x ^ 9 / 362880
               - x ^ 11 / 39916800 + x ^ 13 / 6227020800 - x ^ 15 / 1307674368000"
    by (simp add: idx c)
  also have "\<dots> = x * (1 - x\<^sup>2 / 6 * (1 - x\<^sup>2 / 20 * (1 - x\<^sup>2 / 42 * (1 - x\<^sup>2 / 72 *
            (1 - x\<^sup>2 / 110 * (1 - x\<^sup>2 / 156 * (1 - x\<^sup>2 / 210)))))))"
    by (simp add: power2_eq_square power_numeral_reduce algebra_simps)
  finally have s': "(\<Sum>m<17. sin_coeff m * x ^ m)
      = x * (1 - x\<^sup>2 / 6 * (1 - x\<^sup>2 / 20 * (1 - x\<^sup>2 / 42 * (1 - x\<^sup>2 / 72 *
            (1 - x\<^sup>2 / 110 * (1 - x\<^sup>2 / 156 * (1 - x\<^sup>2 / 210)))))))" .
  have f: "inverse (fact 17) * \<bar>x\<bar> ^ 17 = x ^ 17 / 355687428096000"
    using assms by (simp add: fact_numeral)
  show ?thesis
    using Maclaurin_sin_bound [of x 17] by (simp only: s' f)
qed

lemma sin_below_pi6: "sin (65449846949787359 / 125000000000000000) \<le> (499999999999999999121 / 1000000000000000000000 :: real)"
proof -
  define a :: real where "a = 65449846949787359 / 125000000000000000"
  define y :: real where "y = 4283682465750589660689455316194881 / 15625000000000000000000000000000000"
  define u7 where "u7 = 1 - y / 210"
  define u6 where "u6 = 1 - y / 156 * u7"
  define u5 where "u5 = 1 - y / 110 * u6"
  define u4 where "u4 = 1 - y / 72 * u5"
  define u3 where "u3 = 1 - y / 42 * u4"
  define u2 where "u2 = 1 - y / 20 * u3"
  define u1 where "u1 = 1 - y / 6 * u2"
  have a0: "0 \<le> a" and a1: "a \<le> 53 / 100"
    by (simp_all add: a_def)
  have y: "a\<^sup>2 = y"
    by (simp add: a_def y_def power2_eq_square)
  have b7: "u7 = 3276966317534249410339310544683805119 / 3281250000000000000000000000000000000"
    by (simp add: u7_def y_def)
  have b6: "u6 \<ge> 199648977222197719533311 / 200000000000000000000000"
    using b7 unfolding u6_def y_def by linarith
  have b5: "u5 \<le> 997512049969362131671279 / 1000000000000000000000000"
    using b6 unfolding u5_def y_def by linarith
  have b4: "u4 \<ge> 199240351132830456429903 / 200000000000000000000000"
    using b5 unfolding u4_def y_def by linarith
  have b3: "u3 \<le> 993497276962912788879397 / 1000000000000000000000000"
    using b4 unfolding u3_def y_def by linarith
  have b2: "u2 \<ge> 986381354031689642390213 / 1000000000000000000000000"
    using b3 unfolding u2_def y_def by linarith
  have b1: "u1 \<le> 477464829275686007353269 / 500000000000000000000000"
    using b2 unfolding u1_def y_def by linarith
  have "a ^ 17 \<le> (53 / 100) ^ 17"
    using a1 a0 by (rule power_mono)
  then have err: "a ^ 17 / 355687428096000 \<le> 1 / 10 ^ 19"
    by (simp add: power_divide)
  have "\<bar>sin a - a * u1\<bar> \<le> a ^ 17 / 355687428096000"
    using sin_horner [OF a0]
    by (simp only: y u1_def u2_def u3_def u4_def u5_def u6_def u7_def)
  then have "sin a \<le> a * u1 + 1 / 10 ^ 19"
    using err by linarith
  moreover have "a * u1 \<le> a * (477464829275686007353269 / 500000000000000000000000)"
    using b1 a0 by (rule mult_left_mono)
  moreover have "a * (477464829275686007353269 / 500000000000000000000000) + 1 / 10 ^ 19 \<le> 499999999999999999121 / 1000000000000000000000"
    by (simp add: a_def)
  ultimately have "sin a \<le> 499999999999999999121 / 1000000000000000000000"
    by linarith
  then show ?thesis
    by (simp only: a_def)
qed

lemma sin_above_pi6: "(125000000000000000163 / 250000000000000000000 :: real) \<le> sin (261799387799149437 / 500000000000000000)"
proof -
  define a :: real where "a = 261799387799149437 / 500000000000000000"
  define y :: real where "y = 68538919452009435094630060657416969 / 250000000000000000000000000000000000"
  define u7 where "u7 = 1 - y / 210"
  define u6 where "u6 = 1 - y / 156 * u7"
  define u5 where "u5 = 1 - y / 110 * u6"
  define u4 where "u4 = 1 - y / 72 * u5"
  define u3 where "u3 = 1 - y / 42 * u4"
  define u2 where "u2 = 1 - y / 20 * u3"
  define u1 where "u1 = 1 - y / 6 * u2"
  have a0: "0 \<le> a" and a1: "a \<le> 53 / 100"
    by (simp_all add: a_def)
  have y: "a\<^sup>2 = y"
    by (simp add: a_def y_def power2_eq_square)
  have b7: "u7 = 17477153693515996854968456646447527677 / 17500000000000000000000000000000000000"
    by (simp add: u7_def y_def)
  have b6: "u6 \<le> 199648977222197719530633 / 200000000000000000000000"
    using b7 unfolding u6_def y_def by linarith
  have b5: "u5 \<ge> 199502409993872426330461 / 200000000000000000000000"
    using b6 unfolding u5_def y_def by linarith
  have b4: "u4 \<le> 996201755664152282120571 / 1000000000000000000000000"
    using b5 unfolding u4_def y_def by linarith
  have b3: "u3 \<ge> 248374319240728197207477 / 250000000000000000000000"
    using b4 unfolding u3_def y_def by linarith
  have b2: "u2 \<le> 986381354031689642286853 / 1000000000000000000000000"
    using b3 unfolding u2_def y_def by linarith
  have b1: "u1 \<ge> 238732414637843003591737 / 250000000000000000000000"
    using b2 unfolding u1_def y_def by linarith
  have "a ^ 17 \<le> (53 / 100) ^ 17"
    using a1 a0 by (rule power_mono)
  then have err: "a ^ 17 / 355687428096000 \<le> 1 / 10 ^ 19"
    by (simp add: power_divide)
  have "\<bar>sin a - a * u1\<bar> \<le> a ^ 17 / 355687428096000"
    using sin_horner [OF a0]
    by (simp only: y u1_def u2_def u3_def u4_def u5_def u6_def u7_def)
  then have "a * u1 - 1 / 10 ^ 19 \<le> sin a"
    using err by linarith
  moreover have "a * (238732414637843003591737 / 250000000000000000000000) \<le> a * u1"
    using b1 a0 by (rule mult_left_mono)
  moreover have "125000000000000000163 / 250000000000000000000 \<le> a * (238732414637843003591737 / 250000000000000000000000) - 1 / 10 ^ 19"
    by (simp add: a_def)
  ultimately have "125000000000000000163 / 250000000000000000000 \<le> sin a"
    by linarith
  then show ?thesis
    by (simp only: a_def)
qed



lemma half_pi64_bounds: "half_pi64 + 57 / 10 ^ 18 < pi / 2" "pi / 2 < half_pi64 + 65 / 10 ^ 18"
proof -
  let ?a = "65449846949787359 / 125000000000000000 :: real"
  let ?b = "261799387799149437 / 500000000000000000 :: real"
  have "?a < pi / 6"
  proof (rule ccontr)
    assume "\<not> ?a < pi / 6"
    then have "pi / 6 \<le> ?a" by simp
    moreover have "?a \<le> pi / 2"
      using pi_ge_two by simp
    ultimately have "sin (pi / 6) \<le> sin ?a"
      by (intro sin_monotone_2pi_le) simp_all
    then show False
      using sin_below_pi6 by (simp add: sin_30)
  qed
  moreover have "half_pi64 + 57 / 10 ^ 18 < 3 * ?a"
    by (simp add: half_pi64_def)
  ultimately show "half_pi64 + 57 / 10 ^ 18 < pi / 2" by simp
  have "pi / 6 < ?b"
  proof (rule ccontr)
    assume "\<not> pi / 6 < ?b"
    then have "?b \<le> pi / 6" by simp
    moreover have "pi / 6 \<le> pi / 2" by simp
    ultimately have "sin ?b \<le> sin (pi / 6)"
      by (intro sin_monotone_2pi_le) simp_all
    then show False
      using sin_above_pi6 by (simp add: sin_30)
  qed
  moreover have "3 * ?b < half_pi64 + 65 / 10 ^ 18"
    by (simp add: half_pi64_def)
  ultimately show "pi / 2 < half_pi64 + 65 / 10 ^ 18" by simp
qed

section \<open>The float64 cosines of latitudes\<close>

lemma deg2rad64_range:
  assumes "- 90 \<le> x" and "x \<le> 90"
  shows "\<bar>deg2rad64 x\<bar> \<le> half_pi64"
proof -
  define z where "z = x * RAD"
  have R: "0 \<le> RAD" by (simp add: RAD_def)
  have "\<bar>z\<bar> = \<bar>x\<bar> * RAD"
    using R by (simp add: z_def abs_mult)
  also have "\<dots> \<le> 90 * RAD"
    using assms R by (intro mult_right_mono) simp_all
  finally have z: "\<bar>z\<bar> \<le> 90 * RAD" .
  show ?thesis
  proof (cases "\<bar>z\<bar> < 1")
    case True
    then have "\<bar>rnd64 z\<bar> \<le> 1"
      by (rule rnd64_small)
    moreover have "1 \<le> half_pi64"
      by (simp add: half_pi64_def)
    ultimately show ?thesis
      by (simp add: deg2rad64_def z_def)
  next
    case False
    then have lo: "1 \<le> \<bar>z\<bar>" by simp
    have hi: "\<bar>z\<bar> < 2"
      using z by (simp add: RAD_def)
    have q: "2 powr (- 52) = (1 / 2 ^ 52 :: real)"
      by (simp add: powr_minus inverse_eq_divide)
    have "rnd64 z = sgn z * (2 powr (of_int 0 - 52) *
            of_int (round_even (\<bar>z\<bar> / 2 powr (of_int 0 - 52))))"
      using lo hi by (intro rnd64_binade) simp_all
    then have r: "rnd64 z = sgn z * (of_int (round_even (\<bar>z\<bar> * 2 ^ 52)) / 2 ^ 52)"
      by (simp add: q)
    have "\<bar>z\<bar> * 2 ^ 52 \<le> 90 * RAD * 2 ^ 52"
      using z by simp
    also have "90 * RAD * 2 ^ 52 = of_int 7074237752028440 + 5 / 32"
      by (simp add: RAD_def)
    finally have "\<bar>z\<bar> * 2 ^ 52 < of_int 7074237752028440 + 1 / 2"
      by simp
    then have up: "round_even (\<bar>z\<bar> * 2 ^ 52) \<le> 7074237752028440"
      by (rule round_even_le)
    have "of_int 0 \<le> \<bar>z\<bar> * 2 ^ 52" by simp
    then have dn: "0 \<le> round_even (\<bar>z\<bar> * 2 ^ 52)"
      by (rule round_even_ge)
    have z0: "z \<noteq> 0" using lo by auto
    have "\<bar>rnd64 z\<bar> = of_int (round_even (\<bar>z\<bar> * 2 ^ 52)) / 2 ^ 52"
      using z0 dn by (simp add: r abs_mult abs_sgn_eq)
    also have "\<dots> \<le> of_int 7074237752028440 / 2 ^ 52"
      using up by (intro divide_right_mono) simp_all
    finally show ?thesis
      by (simp add: deg2rad64_def z_def half_pi64_def)
  qed
qed

lemma cos_near_half_pi:
  assumes "\<bar>y\<bar> \<le> half_pi64"
  shows "1 / 10 ^ 18 \<le> cos y"
proof -
  let ?d = "1 / 10 ^ 17 :: real"
  have h: "half_pi64 + ?d < pi / 2"
    using half_pi64_bounds(1) by simp
  have h0: "0 \<le> half_pi64"
    by (simp add: half_pi64_def)
  have "?d - ?d ^ 3 / 6 - ?d ^ 5 / 120 \<le> sin ?d"
    by (rule sin_bounds5(1)) simp
  moreover have "1 / 10 ^ 18 \<le> ?d - ?d ^ 3 / 6 - ?d ^ 5 / 120"
    by (simp add: power_divide)
  ultimately have "1 / 10 ^ 18 \<le> sin ?d"
    by linarith
  also have "sin ?d \<le> sin (pi / 2 - half_pi64)"
    using h h0 by (intro sin_monotone_2pi_le) simp_all
  also have "\<dots> = cos half_pi64"
    by (simp add: sin_diff)
  also have "cos half_pi64 \<le> cos \<bar>y\<bar>"
    using assms h by (intro cos_monotone_0_pi_le) simp_all
  finally show ?thesis by simp
qed

lemma cos64_pos_in_range:
  assumes "- 90 \<le> x" and "x \<le> 90"
  shows "0 < cos64 (deg2rad64 x)"
proof -
  have "1 / 10 ^ 18 \<le> cos (deg2rad64 x)"
    using assms by (intro cos_near_half_pi deg2rad64_range)
  moreover have "(2::real) powr (- 1022) \<le> 2 powr (- 60)"
    by (intro powr_mono) simp_all
  moreover have "(2::real) powr (- 60) \<le> 1 / 10 ^ 18"
    by (simp add: powr_minus inverse_eq_divide)
  ultimately have "2 powr (- 1022) \<le> cos (deg2rad64 x)"
    by linarith
  then show ?thesis
    unfolding cos64_def by (rule rnd64_pos)
qed

lemma cos64_lower_in_range:
  assumes "- 90 \<le> x" and "x \<le> 90"
  shows "2 powr (- 60) \<le> cos64 (deg2rad64 x)"
proof -
  have "1 / 10 ^ 18 \<le> cos (deg2rad64 x)"
    using assms by (intro cos_near_half_pi deg2rad64_range)
  moreover have "(2::real) powr (- 60) \<le> 1 / 10 ^ 18"
    by (simp add: powr_minus inverse_eq_divide)
  ultimately have "2 powr of_int (- 60) \<le> cos (deg2rad64 x)"
    by simp
  then have "2 powr of_int (- 60) \<le> rnd64 (cos (deg2rad64 x))"
    by (intro rnd64_ge_pow2) simp_all
  then show ?thesis
    by (simp add: cos64_def)
qed

lemma deg2rad64_zero: "deg2rad64 0 = 0"
  by (simp add: deg2rad64_def rnd64_zero)

lemma cos64_zero: "cos64 0 = 1"
  by (simp add: cos64_def rnd64_one)

lemma deg2rad64_180: "deg2rad64 180 = 2 * half_pi64"
proof -
  let ?z = "180 * RAD"
  have b: "2 powr of_int 1 \<le> \<bar>?z\<bar>" "\<bar>?z\<bar> < 2 powr (of_int 1 + 1)"
    by (simp_all add: RAD_def)
  have q: "2 powr (- 51) = (1 / 2 ^ 51 :: real)"
    by (simp add: powr_minus inverse_eq_divide)
  have "\<bar>?z\<bar> * 2 ^ 51 = of_int 7074237752028440 + 5 / 32"
    by (simp add: RAD_def)
  then have "\<bar>\<bar>?z\<bar> * 2 ^ 51 - of_int 7074237752028440\<bar> < 1 / 2"
    by simp
  then have r: "round_even (\<bar>?z\<bar> * 2 ^ 51) = 7074237752028440"
    by (rule round_even_near)
  have "rnd64 ?z = sgn ?z * (2 powr (of_int 1 - 52) *
          of_int (round_even (\<bar>?z\<bar> / 2 powr (of_int 1 - 52))))"
    using b by (intro rnd64_binade) simp_all
  then have "rnd64 ?z = sgn ?z * (of_int (round_even (\<bar>?z\<bar> * 2 ^ 51)) / 2 ^ 51)"
    by (simp add: q)
  moreover have "sgn ?z = 1"
    by (simp add: RAD_def)
  ultimately have "rnd64 ?z = 1 * (of_int 7074237752028440 / 2 ^ 51)"
    by (simp only: r)
  then show ?thesis
    by (simp add: deg2rad64_def half_pi64_def)
qed

lemma cos64_pi64: "cos64 (2 * half_pi64) = - 1"
proof -
  define t where "t = pi - 2 * half_pi64"
  have t: "0 < t" "t < 1 / 10 ^ 8"
    using half_pi64_bounds by (simp_all add: t_def)
  have "t\<^sup>2 \<le> (1 / 10 ^ 8)\<^sup>2"
    using t by (intro power_mono) simp_all
  then have "1 - (1 / 10 ^ 8)\<^sup>2 / 2 \<le> cos t"
    using cos_lower_quadratic [of t] by linarith
  moreover have "(1 / 2 ^ 54 :: real) > (1 / 10 ^ 8)\<^sup>2 / 2"
    by (simp add: power_divide)
  ultimately have c: "1 - 1 / 2 ^ 54 < cos t"
    by linarith
  have "cos (2 * half_pi64) = cos (pi - t)"
    by (simp add: t_def)
  also have "\<dots> = - cos t"
    by (rule cos_pi_minus)
  finally have e: "cos (2 * half_pi64) = - cos t" .
  have "- 1 \<le> - cos t" "- cos t < - 1 + 1 / 2 ^ 54"
    using c by simp_all
  then have "rnd64 (- cos t) = - 1"
    by (rule rnd64_near_minus_one)
  then show ?thesis
    by (simp add: cos64_def e)
qed




lemma deg2rad64_90: "deg2rad64 90 = half_pi64"
proof -
  have "rnd64 (90 * RAD) = 1 / 2 ^ 52 * of_int 7074237752028440"
    by (rule rnd64_near [where k = 0])
      (simp_all add: RAD_def powr_minus inverse_eq_divide)
  then show ?thesis
    by (simp add: deg2rad64_def half_pi64_def)
qed

lemma cos_half_pi64_bounds: "569 / 10 ^ 19 \<le> cos half_pi64" "cos half_pi64 \<le> 65 / 10 ^ 18"
proof -
  let ?d = "57 / 10 ^ 18 :: real"
  have h0: "0 \<le> half_pi64"
    by (simp add: half_pi64_def)
  have c: "cos half_pi64 = sin (pi / 2 - half_pi64)"
    by (simp add: sin_diff)
  have "?d - ?d ^ 3 / 6 - ?d ^ 5 / 120 \<le> sin ?d"
    by (rule sin_bounds5(1)) simp
  moreover have "569 / 10 ^ 19 \<le> ?d - ?d ^ 3 / 6 - ?d ^ 5 / 120"
    by (simp add: power_divide)
  moreover have "sin ?d \<le> sin (pi / 2 - half_pi64)"
    using half_pi64_bounds(1) h0 by (intro sin_monotone_2pi_le) simp_all
  ultimately show "569 / 10 ^ 19 \<le> cos half_pi64"
    using c by linarith
  have "sin (pi / 2 - half_pi64) \<le> pi / 2 - half_pi64"
    using half_pi64_bounds(1) by (intro sin_x_le_x) simp
  then show "cos half_pi64 \<le> 65 / 10 ^ 18"
    using c half_pi64_bounds(2) by linarith
qed

lemma cos64_90_bounds:
  "56 / 10 ^ 18 \<le> cos64 (deg2rad64 90)" "cos64 (deg2rad64 90) \<le> 66 / 10 ^ 18"
proof -
  define c where "c = cos half_pi64"
  have c: "569 / 10 ^ 19 \<le> c" "c \<le> 65 / 10 ^ 18"
    using cos_half_pi64_bounds by (simp_all only: c_def)
  have "(2::real) powr (- 1022) \<le> 2 powr (- 60)"
    by (intro powr_mono) simp_all
  moreover have "(2::real) powr (- 60) \<le> 569 / 10 ^ 19"
    by (simp add: powr_minus inverse_eq_divide)
  ultimately have "2 powr (- 1022) \<le> c"
    using c(1) by linarith
  then have "c - c / 2 ^ 53 \<le> rnd64 c" "rnd64 c \<le> c + c / 2 ^ 53"
    by (rule rnd64_rel)+
  then have "56 / 10 ^ 18 \<le> rnd64 c" "rnd64 c \<le> 66 / 10 ^ 18"
    using c by simp_all
  then show "56 / 10 ^ 18 \<le> cos64 (deg2rad64 90)" and "cos64 (deg2rad64 90) \<le> 66 / 10 ^ 18"
    by (simp_all add: cos64_def deg2rad64_90 c_def)
qed

lemma cos64_90_pos: "0 < cos64 (deg2rad64 90)"
  using cos64_90_bounds(1) by simp



lemma cos64_idem: "rnd64 (cos64 y) = cos64 y"
  by (simp add: cos64_def rnd64_idem)

lemma coslat_f64_lower:
  assumes "\<forall>x \<in> set lats. - 90 \<le> x \<and> x \<le> 90"
  shows "\<forall>c \<in> set (coslat_f64 lats). 2 powr (- 60) \<le> c"
  using assms by (auto simp: coslat_f64_def cos64_lower_in_range)

lemma coslat_f64_pos:
  assumes "\<forall>x \<in> set lats. - 90 \<le> x \<and> x \<le> 90"
  shows "\<forall>c \<in> set (coslat_f64 lats). 0 < c"
proof
  fix c assume "c \<in> set (coslat_f64 lats)"
  then have "2 powr (- 60) \<le> c"
    using coslat_f64_lower [OF assms] by blast
  moreover have "(0::real) < 2 powr (- 60)"
    by simp
  ultimately show "0 < c"
    by linarith
qed

lemma coslat_f64_sum_pos:
  assumes "lats \<noteq> []" and "\<forall>x \<in> set lats. - 90 \<le> x \<and> x \<le> 90"
  shows "0 < sum_list (coslat_f64 lats)"
proof (rule sum_list_pos_real)
  have p: "\<forall>c \<in> set (coslat_f64 lats). 0 < c"
    using assms(2) by (rule coslat_f64_pos)
  then show "\<forall>c \<in> set (coslat_f64 lats). 0 \<le> c"
    by (simp add: less_imp_le)
  have "coslat_f64 lats \<noteq> []"
    using assms(1) by (simp add: coslat_f64_def)
  then obtain c where "c \<in> set (coslat_f64 lats)"
    by (cases "coslat_f64 lats") auto
  then show "\<exists>c \<in> set (coslat_f64 lats). 0 < c"
    using p by blast
qed


lemma coslat_f64_0_180: "coslat_f64 [0, 180] = [1, - 1]"
  by (simp add: coslat_f64_def deg2rad64_zero cos64_zero deg2rad64_180 cos64_pi64)



section \<open>Float64 sums and means\<close>

lemma mean_f64_pair: "mean_f64 [a, b] = Some (rnd64 (rnd64 (a + b) / 2))"
  by (simp add: mean_f64_def)

lemma foldl_f64_lower:
  assumes "- 1022 \<le> k" and "2 powr of_int k \<le> s" and "\<forall>y \<in> set ys. 0 \<le> y"
  shows "2 powr of_int k \<le> foldl (\<lambda>s y. rnd64 (s + y)) s ys"
  using assms(2,3)
proof (induction ys arbitrary: s)
  case Nil
  then show ?case by simp
next
  case (Cons y ys)
  have "2 powr of_int k \<le> s + y"
    using Cons.prems by simp
  then have "2 powr of_int k \<le> rnd64 (s + y)"
    using assms(1) by (intro rnd64_ge_pow2)
  then show ?case
    using Cons.IH Cons.prems(2) by simp
qed

lemma sum_f64_lower:
  assumes "xs \<noteq> []" and "\<forall>x \<in> set xs. 2 powr (- 60) \<le> x"
  shows "2 powr (- 60) \<le> sum_f64 xs"
proof (cases xs)
  case Nil
  then show ?thesis using assms(1) by simp
next
  case (Cons x ys)
  have "\<forall>y \<in> set ys. 0 \<le> y"
  proof
    fix y assume "y \<in> set ys"
    then have "2 powr (- 60) \<le> y"
      using assms(2) Cons by simp
    moreover have "(0::real) \<le> 2 powr (- 60)"
      by simp
    ultimately show "0 \<le> y"
      by linarith
  qed
  moreover have "2 powr of_int (- 60) \<le> x"
    using assms(2) Cons by simp
  ultimately have "2 powr of_int (- 60) \<le> foldl (\<lambda>s y. rnd64 (s + y)) x ys"
    by (intro foldl_f64_lower) simp_all
  then show ?thesis
    by (simp add: Cons)
qed

lemma mean_f64_pos:
  assumes "xs \<noteq> []" and "length xs < 2 ^ 64" and "\<forall>x \<in> set xs. 2 powr (- 60) \<le> x"
  shows "\<exists>m. mean_f64 xs = Some m \<and> 0 < m"
proof -
  define s where "s = sum_f64 xs"
  define n where "n = real (length xs)"
  have n: "0 < n" "n \<le> 2 ^ 64"
    using assms(1,2) by (simp_all add: n_def)
  have "2 powr (- 60) \<le> s"
    unfolding s_def using assms(1,3) by (rule sum_f64_lower)
  then have s: "1 / 2 ^ 60 \<le> s"
    by (simp add: powr_minus inverse_eq_divide)
  have "1 / 2 ^ 124 * n \<le> 1 / 2 ^ 124 * 2 ^ 64"
    using n(2) by (intro mult_left_mono) simp_all
  then have "1 / 2 ^ 124 * n \<le> s"
    using s by simp
  then have "1 / 2 ^ 124 \<le> s / n"
    using n(1) by (simp add: pos_le_divide_eq)
  moreover have "(2::real) powr (- 1022) \<le> 2 powr (- 124)"
    by (intro powr_mono) simp_all
  moreover have "(2::real) powr (- 124) = 1 / 2 ^ 124"
    by (simp add: powr_minus inverse_eq_divide)
  ultimately have "2 powr (- 1022) \<le> s / n"
    by linarith
  then have "0 < rnd64 (s / n)"
    by (rule rnd64_pos)
  then show ?thesis
    using assms(1) by (simp add: mean_f64_def s_def n_def)
qed

lemma weight_factor_f64_defined:
  assumes "lats \<noteq> []" and "length lats < 2 ^ 64" and "\<forall>x \<in> set lats. - 90 \<le> x \<and> x \<le> 90"
  shows "mean_f64 (coslat_f64 lats) \<noteq> None \<and> mean_f64 (coslat_f64 lats) \<noteq> Some 0 \<and>
         weight_factor_f64 lats \<noteq> None"
proof -
  have "coslat_f64 lats \<noteq> []" "length (coslat_f64 lats) < 2 ^ 64"
    using assms(1,2) by (simp_all add: coslat_f64_def)
  then obtain m where m: "mean_f64 (coslat_f64 lats) = Some m" "0 < m"
    using mean_f64_pos coslat_f64_lower [OF assms(3)] by blast
  then show ?thesis
    by (simp add: weight_factor_f64_def div_by_f64_def)
qed


lemma weight_factor_f64_single:
  assumes "cos64 (deg2rad64 x) \<noteq> 0"
  shows "weight_factor_f64 [x] = Some [1]"
  using assms
  by (simp add: weight_factor_f64_def coslat_f64_def mean_f64_def div_by_f64_def cos64_idem rnd64_one)

lemma mul_lat_f64_one:
  assumes "\<forall>slice \<in> set F. length slice = 1"
    and "\<forall>slice \<in> set F. \<forall>row \<in> set slice. \<forall>v \<in> set row. rnd64 v = v"
  shows "mul_lat_f64 F [1] = F"
proof -
  have "map2 (\<lambda>row wi. map (\<lambda>x. rnd64 (x * wi)) row) slice [1] = slice"
    if "slice \<in> set F" for slice
  proof -
    have "length slice = 1"
      using that assms(1) by simp
    then obtain row where s: "slice = [row]"
      by (cases slice) auto
    then have "\<forall>v \<in> set row. rnd64 v = v"
      using that assms(2) by auto
    then have "map (\<lambda>x. rnd64 (x * 1)) row = row"
      by (simp add: map_idI)
    then show ?thesis
      by (simp add: s)
  qed
  then show ?thesis
    by (simp add: mul_lat_f64_def map_idI)
qed

section \<open>The cells in float64 on the latitudes 0 and 180 and on 60 and 90\<close>

lemma mean_f64_0_180: "mean_f64 (coslat_f64 [0, 180]) = Some 0"
  by (simp add: coslat_f64_0_180 mean_f64_pair rnd64_zero)

lemma weight_factor_f64_0_180: "weight_factor_f64 [0, 180] = None"
  by (simp add: weight_factor_f64_def mean_f64_0_180 div_by_f64_def)

















section \<open>Weights over the float64 cosines\<close>










section \<open>A uniform field\<close>




section \<open>The cells against the reference formula\<close>




section \<open>When the divisor is not zero\<close>

text \<open>
  C3, as the cells compute it. On a non-empty axis of fewer than \<open>2 ^ 64\<close> latitudes
  that all lie between \<open>-90\<close> and 90 degrees, the poles included, the float64 cosines
  sum to a positive number, their float64 mean is a number other than zero and the
  division that normalises the weight is defined. A non-empty latitude axis alone does
  not give this: the float64 cosines of the latitudes 0 and 180 are 1 and \<open>-1\<close>, and
  their mean is zero.
\<close>

theorem divisor_positive_in_range:
  assumes "lats \<noteq> []" and "length lats < 2 ^ 64" and "\<forall>x \<in> set lats. - 90 \<le> x \<and> x \<le> 90"
  shows "0 < sum_list (coslat_f64 lats) \<and>
         mean_f64 (coslat_f64 lats) \<noteq> None \<and> mean_f64 (coslat_f64 lats) \<noteq> Some 0 \<and>
         weight_factor_f64 lats \<noteq> None"
  using coslat_f64_sum_pos [OF assms(1,3)] weight_factor_f64_defined [OF assms] by simp

theorem divisor_positive_in_range_witness:
  "[- 90, 90] \<noteq> ([]::real list) \<and> length [- 90, 90 :: real] < 2 ^ 64 \<and>
   list_all (\<lambda>x. - 90 \<le> x \<and> x \<le> 90) [- 90, 90 :: real] \<and>
   0 < sum_list (coslat_f64 [- 90, 90]) \<and>
   mean_f64 (coslat_f64 [- 90, 90]) \<noteq> None \<and> mean_f64 (coslat_f64 [- 90, 90]) \<noteq> Some 0 \<and>
   weight_factor_f64 [- 90, 90] \<noteq> None"
  using divisor_positive_in_range [of "[- 90, 90]"] by simp

theorem divisor_zero_counterexample:
  "[0, 180] \<noteq> ([]::real list) \<and> coslat_f64 [0, 180] = [1, - 1] \<and>
   sum_list (coslat_f64 [0, 180]) = 0 \<and> mean_f64 (coslat_f64 [0, 180]) = Some 0 \<and>
   weight_factor_f64 [0, 180] = None"
  using mean_f64_0_180 by (simp add: coslat_f64_0_180 weight_factor_f64_0_180)

section \<open>A field that is the cosine of latitude\<close>

text \<open>
  C4, as the cells compute it. On the latitudes from \<open>-90\<close> to 90 degrees in steps of 2
  degrees, with at least one longitude, the field \<open>F[i] = cos (radians lat\<^sub>i)\<close> has the
  unweighted mean \<open>cot(1\<degree>) / 91\<close>, which lies between 0.62 and 0.64, and the
  cosine-weighted mean \<open>45 * tan(1\<degree>)\<close>, which lies between 0.78 and 0.79. The two
  means differ, and the weighted mean is not near 0: the weighted sum is the sum of the
  squared cosines, 45, over the sum of the cosines, \<open>cot(1\<degree>)\<close>.
\<close>

theorem cosine_field_means:
  assumes "lons \<noteq> []"
  shows "mean_time_lon_lat (FLNT (cosine_field lons)) = Some (cot (pi / 180) / 91) \<and>
         62 / 100 < cot (pi / 180) / 91 \<and> cot (pi / 180) / 91 < 64 / 100 \<and>
         global_average (cosine_field lons) = Some (45 * tan (pi / 180)) \<and>
         78 / 100 < 45 * tan (pi / 180) \<and> 45 * tan (pi / 180) < 79 / 100"
  using cosine_field_unweighted [OF assms] cosine_field_weighted [OF assms] one_degree_means
  by simp

theorem cosine_field_means_witness:
  "[0] \<noteq> ([]::real list) \<and>
   mean_time_lon_lat (FLNT (cosine_field [0])) = Some (cot (pi / 180) / 91) \<and>
   62 / 100 < cot (pi / 180) / 91 \<and> cot (pi / 180) / 91 < 64 / 100 \<and>
   global_average (cosine_field [0]) = Some (45 * tan (pi / 180)) \<and>
   78 / 100 < 45 * tan (pi / 180) \<and> 45 * tan (pi / 180) < 79 / 100"
  using cosine_field_means [of "[0]"] by simp

theorem cosine_field_weighted_counterexample:
  "global_average (cosine_field [0]) = Some (45 * tan (pi / 180)) \<and>
   \<not> \<bar>45 * tan (pi / 180) - 0\<bar> \<le> 1 / 10 ^ 6"
proof -
  have "global_average (cosine_field [0]) = Some (45 * tan (pi / 180))"
    by (rule cosine_field_weighted) simp
  moreover have "1 / 10 ^ 6 < 45 * tan (pi / 180)"
    using one_degree_means(3) by simp
  ultimately show ?thesis by simp
qed

section \<open>One latitude row\<close>

text \<open>
  C5, in float64. On a well-formed dataset of float64 numbers with the single latitude
  \<open>x\<close>, the weight is the one entry 1, the weighted field is the field itself entry for
  entry, and the weighted global average is the unweighted mean of the field. The
  float64 cosine of \<open>x\<close> must not be zero for the quotient of it by itself to be 1; for
  \<open>x\<close> between \<open>-90\<close> and 90 degrees, the poles included, it never is.
\<close>

theorem single_row_no_op:
  assumes "wf_dataset ds" and "lat ds = [x]"
    and "- 90 \<le> x \<and> x \<le> 90 \<or> cos64 (deg2rad64 x) \<noteq> 0"
    and "\<forall>slice \<in> set (FLNT ds). \<forall>row \<in> set slice. \<forall>v \<in> set row. rnd64 v = v"
  shows "weight_factor_f64 (lat ds) = Some [1] \<and>
         mul_lat_f64 (FLNT ds) [1] = FLNT ds \<and>
         global_average_f64 ds = mean_f64 (concat (concat (FLNT ds)))"
proof -
  have "cos64 (deg2rad64 x) \<noteq> 0"
    using assms(3) cos64_pos_in_range [of x] by auto
  then have w: "weight_factor_f64 (lat ds) = Some [1]"
    unfolding assms(2) by (rule weight_factor_f64_single)
  have "\<forall>slice \<in> set (FLNT ds). length slice = 1"
    using assms(1,2) by (simp add: wf_dataset_def)
  then have "mul_lat_f64 (FLNT ds) [1] = FLNT ds"
    using assms(4) by (rule mul_lat_f64_one)
  then show ?thesis
    using w by (simp add: global_average_f64_def)
qed

theorem single_row_no_op_witness:
  "wf_dataset grid_pole_row \<and> lat grid_pole_row = [90] \<and>
   - 90 \<le> (90::real) \<and> (90::real) \<le> 90 \<and> cos64 (deg2rad64 90) \<noteq> 0 \<and>
   FLNT grid_pole_row = [[[1, 2, 6]]] \<and> rnd64 1 = 1 \<and> rnd64 2 = 2 \<and> rnd64 6 = 6 \<and>
   weight_factor_f64 (lat grid_pole_row) = Some [1] \<and>
   mul_lat_f64 (FLNT grid_pole_row) [1] = FLNT grid_pole_row \<and>
   global_average_f64 grid_pole_row = Some 3 \<and>
   mean_f64 (concat (concat (FLNT grid_pole_row))) = Some 3"
proof -
  have wf: "wf_dataset grid_pole_row"
    by (simp add: wf_dataset_def grid_pole_row_def)
  have l: "lat grid_pole_row = [90]" and f: "FLNT grid_pole_row = [[[1, 2, 6]]]"
    by (simp_all add: grid_pole_row_def)
  have c: "cos64 (deg2rad64 90) \<noteq> 0"
    using cos64_90_pos by simp
  have r: "\<forall>slice \<in> set (FLNT grid_pole_row). \<forall>row \<in> set slice. \<forall>v \<in> set row. rnd64 v = v"
    by (simp add: f rnd64_one rnd64_small_ints)
  have m: "mean_f64 (concat (concat (FLNT grid_pole_row))) = Some 3"
    by (simp add: f mean_f64_def rnd64_small_ints)
  have "- 90 \<le> (90::real) \<and> (90::real) \<le> 90 \<or> cos64 (deg2rad64 90) \<noteq> 0"
    by simp
  then show ?thesis
    using single_row_no_op [OF wf l _ r] wf l c f m
    by (simp add: rnd64_one rnd64_small_ints)
qed

section \<open>The weights average to one\<close>




section \<open>The cells leave their inputs alone\<close>

text \<open>
  C9. Running the weighting cells and the comparison cell leaves the dataset (its
  coordinates and its field) as it was, and the weight the cells bind is a function of
  the latitude coordinate alone: it is \<open>weight_factor\<close> of \<open>lat\<close>, whatever the field,
  the longitudes and the earlier bindings are. The printed numbers are the two global
  averages of the unchanged dataset.
\<close>

theorem run_cells_frame:
  "atm_control (run_cells ns) = atm_control ns \<and>
   atm_control (cell_weight_factor ns) = atm_control ns \<and>
   atm_control (cell_weight_factor2 ns) = atm_control ns \<and>
   atm_control (cell_compare ns) = atm_control ns \<and>
   coslat_var (run_cells ns) = coslat (lat (atm_control ns)) \<and>
   weight_factor_var (run_cells ns) = weight_factor (lat (atm_control ns)) \<and>
   weight_factor2_var (run_cells ns) = weight_factor2 (gw (atm_control ns)) \<and>
   printed (run_cells ns) =
     printed ns @ [global_average (atm_control ns), global_average2 (atm_control ns)]"
  by (simp add: run_cells_def cell_compare_def cell_weight_factor2_def cell_weight_factor_def
      Let_def weight_factor_def weight_factor2_def coslat_def global_average_def
      global_average2_def)

section \<open>Weights that are not negative\<close>




end
